theory Spec2Isabelle
  imports Complex_Main
begin

section \<open>Python values held in a table\<close>

text \<open>
  A cell of a \<open>DataTable\<close> is a hashable Python scalar: text, an integer (unbounded)
  or a float.  Floats are idealised as real numbers: rounding, infinities, NaN and the
  \<open>OverflowError\<close> of converting a very large integer to a float are outside this model.
\<close>

datatype val = VInt int | VFloat real | VStr string

text \<open>\<open>isinstance(v, numbers.Number)\<close>.\<close>

fun is_number :: "val \<Rightarrow> bool" where
  "is_number (VInt i) = True"
| "is_number (VFloat r) = True"
| "is_number (VStr s) = False"

text \<open>The numeric value of a number (0 for text, which is never asked for).\<close>

fun num_val :: "val \<Rightarrow> real" where
  "num_val (VInt i) = of_int i"
| "num_val (VFloat r) = r"
| "num_val (VStr s) = 0"

text \<open>
  Python's \<open>==\<close>, which is also the equality used for dictionary keys: an integer and a
  float of the same numeric value are equal (\<open>1 == 1.0\<close>), text equals only text.
\<close>

fun py_eq :: "val \<Rightarrow> val \<Rightarrow> bool" where
  "py_eq (VInt a) (VInt b) = (a = b)"
| "py_eq (VInt a) (VFloat b) = (of_int a = b)"
| "py_eq (VFloat a) (VInt b) = (a = of_int b)"
| "py_eq (VFloat a) (VFloat b) = (a = b)"
| "py_eq (VStr a) (VStr b) = (a = b)"
| "py_eq (VInt a) (VStr b) = False"
| "py_eq (VFloat a) (VStr b) = False"
| "py_eq (VStr a) (VInt b) = False"
| "py_eq (VStr a) (VFloat b) = False"

text \<open>
  The exceptions of the module.  \<open>NoSuchColumn\<close> is the \<open>ValueError\<close> of
  \<open>_validate_col_name\<close> (with the rejected name), \<open>NonNumericValue\<close> the \<open>TypeError\<close> of
  \<open>sum\<close> (with the rejected element), \<open>MalformedRow\<close> the \<open>ValueError\<close> of \<open>read_csv\<close>
  (with the column count, the row's field count and the row).  \<open>UnsupportedOperand\<close> and
  \<open>ZeroDivisionError\<close> are what Python's \<open>+\<close> and \<open>/\<close> raise, \<open>KeyError\<close> is a read of
  an index that is not a key of the loader's dictionaries, and \<open>TransformError\<close> is any
  exception raised by the function given to \<open>map\<close>.
\<close>

datatype error =
    NoSuchColumn string
  | NonNumericValue val
  | MalformedRow nat nat "string list"
  | UnsupportedOperand
  | ZeroDivisionError
  | KeyError nat
  | TransformError string

text \<open>Python's \<open>+\<close> on two values.\<close>

fun py_add :: "val \<Rightarrow> val \<Rightarrow> error + val" where
  "py_add (VInt a) (VInt b) = Inr (VInt (a + b))"
| "py_add (VInt a) (VFloat b) = Inr (VFloat (of_int a + b))"
| "py_add (VFloat a) (VInt b) = Inr (VFloat (a + of_int b))"
| "py_add (VFloat a) (VFloat b) = Inr (VFloat (a + b))"
| "py_add (VStr a) (VStr b) = Inr (VStr (a @ b))"
| "py_add (VInt a) (VStr b) = Inl UnsupportedOperand"
| "py_add (VFloat a) (VStr b) = Inl UnsupportedOperand"
| "py_add (VStr a) (VInt b) = Inl UnsupportedOperand"
| "py_add (VStr a) (VFloat b) = Inl UnsupportedOperand"

text \<open>Python's \<open>/\<close> (true division): the result is a float also for two integers.\<close>

definition py_truediv :: "val \<Rightarrow> val \<Rightarrow> error + val" where
  "py_truediv a b =
     (if \<not> is_number a \<or> \<not> is_number b then Inl UnsupportedOperand
      else if num_val b = 0 then Inl ZeroDivisionError
      else Inr (VFloat (num_val a / num_val b)))"

section \<open>Dictionaries keyed by values\<close>

text \<open>
  A Python \<open>dict\<close> whose keys are cell values: the items in insertion order, no two keys
  equal under \<open>==\<close>.  Storing under a key that is already present keeps the key object
  that was inserted first and replaces the value.
\<close>

type_synonym 'v pydict = "(val \<times> 'v) list"

fun dict_get :: "'v pydict \<Rightarrow> val \<Rightarrow> 'v option" where
  "dict_get [] k = None"
| "dict_get ((k', v) # d) k = (if py_eq k' k then Some v else dict_get d k)"

fun dict_set :: "'v pydict \<Rightarrow> val \<Rightarrow> 'v \<Rightarrow> 'v pydict" where
  "dict_set [] k v = [(k, v)]"
| "dict_set ((k', v') # d) k v =
     (if py_eq k' k then (k', v) # d else (k', v') # dict_set d k v)"

definition dict_keys :: "'v pydict \<Rightarrow> val list" where
  "dict_keys d = map fst d"

text \<open>
  Reading \<open>d[k]\<close> from a \<open>defaultdict\<close> whose factory returns \<open>dflt\<close> (\<open>int()\<close> is 0).
\<close>

definition defaultdict_get :: "'v \<Rightarrow> 'v pydict \<Rightarrow> val \<Rightarrow> 'v" where
  "defaultdict_get dflt d k = (case dict_get d k of None \<Rightarrow> dflt | Some v \<Rightarrow> v)"

section \<open>The table\<close>

text \<open>
  \<open>class DataTable\<close>: its one attribute is the dictionary from column names to the lists
  of row values.
\<close>

record DataTable =
  data_table :: "string \<rightharpoonup> val list"

text \<open>\<open>_validate_col_name\<close>: raises when the name is not a key of the dictionary.\<close>

definition validate_col_name :: "DataTable \<Rightarrow> string \<Rightarrow> error + unit" where
  "validate_col_name self col_name =
     (if data_table self col_name = None then Inl (NoSuchColumn col_name) else Inr ())"

text \<open>
  \<open>self.data_table[col_name]\<close>, which the source reads only after the name has been
  validated, so that the name is a key.
\<close>

definition column :: "DataTable \<Rightarrow> string \<Rightarrow> val list" where
  "column self col_name = (case data_table self col_name of None \<Rightarrow> [] | Some xs \<Rightarrow> xs)"

text \<open>\<open>__getitem__\<close>.\<close>

definition getitem :: "DataTable \<Rightarrow> string \<Rightarrow> error + val list" where
  "getitem self col_name =
     (case validate_col_name self col_name of
        Inl e \<Rightarrow> Inl e
      | Inr u \<Rightarrow> Inr (column self col_name))"

text \<open>\<open>__setitem__\<close>.\<close>

definition setitem :: "DataTable \<Rightarrow> string \<Rightarrow> val list \<Rightarrow> DataTable" where
  "setitem self col_name values =
     self\<lparr>data_table := (data_table self)(col_name \<mapsto> values)\<rparr>"

text \<open>The loop of \<open>count\<close>: \<open>result[group_by_value] += 1\<close> on a \<open>defaultdict(int)\<close>.\<close>

fun count_loop :: "int pydict \<Rightarrow> val list \<Rightarrow> int pydict" where
  "count_loop result [] = result"
| "count_loop result (group_by_value # rest) =
     count_loop
       (dict_set result group_by_value (defaultdict_get 0 result group_by_value + 1)) rest"

text \<open>\<open>DataTable.count\<close>.\<close>

definition count :: "DataTable \<Rightarrow> string \<Rightarrow> error + int pydict" where
  "count self group_by =
     (case validate_col_name self group_by of
        Inl e \<Rightarrow> Inl e
      | Inr u \<Rightarrow> Inr (count_loop [] (column self group_by)))"

text \<open>
  The loop of \<open>sum\<close> over \<open>zip(col_values, group_by_values)\<close>: the check of the element,
  then \<open>result[group_by_value] += col_value\<close> on a \<open>defaultdict(int)\<close>.
\<close>

fun sum_loop :: "val pydict \<Rightarrow> (val \<times> val) list \<Rightarrow> error + val pydict" where
  "sum_loop result [] = Inr result"
| "sum_loop result ((col_value, group_by_value) # rest) =
     (if \<not> is_number col_value then Inl (NonNumericValue col_value)
      else case py_add (defaultdict_get (VInt 0) result group_by_value) col_value of
             Inl e \<Rightarrow> Inl e
           | Inr s \<Rightarrow> sum_loop (dict_set result group_by_value s) rest)"

text \<open>\<open>DataTable.sum\<close> (\<open>sum\<close> is taken in HOL).\<close>

definition sum_by :: "DataTable \<Rightarrow> string \<Rightarrow> string \<Rightarrow> error + val pydict" where
  "sum_by self col_name group_by =
     (case validate_col_name self col_name of
        Inl e \<Rightarrow> Inl e
      | Inr u \<Rightarrow>
         (case validate_col_name self group_by of
            Inl e \<Rightarrow> Inl e
          | Inr u' \<Rightarrow> sum_loop [] (zip (column self col_name) (column self group_by))))"

text \<open>
  The dictionary comprehension of \<open>avg\<close>, \<open>{k: sum[k]/count[k] for k in sum.keys()}\<close>:
  both operands are read from a \<open>defaultdict(int)\<close>.
\<close>

fun avg_comprehension ::
  "val pydict \<Rightarrow> val pydict \<Rightarrow> int pydict \<Rightarrow> val list \<Rightarrow> error + val pydict" where
  "avg_comprehension acc sm cnt [] = Inr acc"
| "avg_comprehension acc sm cnt (k # ks) =
     (case py_truediv (defaultdict_get (VInt 0) sm k) (VInt (defaultdict_get 0 cnt k)) of
        Inl e \<Rightarrow> Inl e
      | Inr q \<Rightarrow> avg_comprehension (dict_set acc k q) sm cnt ks)"

text \<open>\<open>DataTable.avg\<close>: both names are validated, then \<open>sum\<close> and \<open>count\<close> are called.\<close>

definition avg :: "DataTable \<Rightarrow> string \<Rightarrow> string \<Rightarrow> error + val pydict" where
  "avg self col_name group_by =
     (case validate_col_name self col_name of
        Inl e \<Rightarrow> Inl e
      | Inr u \<Rightarrow>
         (case validate_col_name self group_by of
            Inl e \<Rightarrow> Inl e
          | Inr u' \<Rightarrow>
             (case sum_by self col_name group_by of
                Inl e \<Rightarrow> Inl e
              | Inr sm \<Rightarrow>
                 (case count self group_by of
                    Inl e \<Rightarrow> Inl e
                  | Inr cnt \<Rightarrow> avg_comprehension [] sm cnt (dict_keys sm)))))"

text \<open>
  The list comprehension of \<open>map\<close>, \<open>[func(x) for x in ...]\<close>: the elements are
  transformed in order and the first exception of \<open>func\<close> ends the comprehension.
\<close>

fun map_comprehension :: "(val \<Rightarrow> error + val) \<Rightarrow> val list \<Rightarrow> error + val list" where
  "map_comprehension func [] = Inr []"
| "map_comprehension func (x # xs) =
     (case func x of
        Inl e \<Rightarrow> Inl e
      | Inr y \<Rightarrow>
         (case map_comprehension func xs of
            Inl e \<Rightarrow> Inl e
          | Inr ys \<Rightarrow> Inr (y # ys)))"

text \<open>
  \<open>DataTable.map\<close> (\<open>map\<close> is taken in HOL) returns nothing and mutates the table:
  the model returns the exception, if any, together with the table as it is when the
  call ends.  The assignment to \<open>self.data_table[col_name]\<close> happens after the whole
  new list has been built.  The transform is a function that returns a value or raises.
\<close>

definition map_col ::
  "DataTable \<Rightarrow> string \<Rightarrow> (val \<Rightarrow> error + val) \<Rightarrow> error option \<times> DataTable" where
  "map_col self col_name func =
     (case validate_col_name self col_name of
        Inl e \<Rightarrow> (Some e, self)
      | Inr u \<Rightarrow>
         (case map_comprehension func (column self col_name) of
            Inl e \<Rightarrow> (Some e, self)
          | Inr ys \<Rightarrow> (None, self\<lparr>data_table := (data_table self)(col_name \<mapsto> ys)\<rparr>)))"

section \<open>The CSV loader\<close>

text \<open>
  \<open>read_csv\<close> works on the rows that \<open>csv.reader\<close> yields, each a list of text fields.
  \<open>col_names\<close> and \<open>data\<close> are dictionaries keyed by the indices \<open>0..N-1\<close> of the header
  fields, filled in index order: they are the lists of their values, and reading an index
  that is not below the length is the \<open>KeyError\<close> of the dictionary.
\<close>

text \<open>\<open>for idx, col_value in enumerate(row_values): data[idx].append(col_value)\<close>.\<close>

fun append_row :: "val list list \<Rightarrow> (nat \<times> string) list \<Rightarrow> error + val list list" where
  "append_row data [] = Inr data"
| "append_row data ((idx, col_value) # rest) =
     (if idx < length data
      then append_row (data[idx := data ! idx @ [VStr col_value]]) rest
      else Inl (KeyError idx))"

text \<open>The rows after the first: the check of the field count, then the appends.\<close>

fun read_rows ::
  "string list \<Rightarrow> val list list \<Rightarrow> string list list \<Rightarrow> error + val list list" where
  "read_rows col_names data [] = Inr data"
| "read_rows col_names data (row_values # rest) =
     (if length row_values \<noteq> length col_names
      then Inl (MalformedRow (length col_names) (length row_values) row_values)
      else case append_row data (enumerate 0 row_values) of
             Inl e \<Rightarrow> Inl e
           | Inr data' \<Rightarrow> read_rows col_names data' rest)"

text \<open>
  \<open>{col_names[idx]: data[idx] for idx in range(len(col_names))}\<close>: a later index
  overwrites the binding of an earlier one with the same name.
\<close>

fun with_header ::
  "(string \<rightharpoonup> val list) \<Rightarrow> string list \<Rightarrow> val list list \<Rightarrow> nat list
     \<Rightarrow> error + (string \<rightharpoonup> val list)"
  where
  "with_header acc col_names data [] = Inr acc"
| "with_header acc col_names data (idx # rest) =
     (if idx < length col_names \<and> idx < length data
      then with_header (acc(col_names ! idx \<mapsto> data ! idx)) col_names data rest
      else Inl (KeyError idx))"

text \<open>
  \<open>read_csv\<close>: the first row fills \<open>col_names\<close> and binds every index of \<open>data\<close> to an
  empty list; a file without rows gives the empty table.
\<close>

definition read_csv :: "string list list \<Rightarrow> error + DataTable" where
  "read_csv rows =
     (case rows of
        [] \<Rightarrow> Inr \<lparr>data_table = Map.empty\<rparr>
      | header # rest \<Rightarrow>
         (case read_rows header (map (\<lambda>col_name. []) header) rest of
            Inl e \<Rightarrow> Inl e
          | Inr data \<Rightarrow>
             (case with_header Map.empty header data [0..<length header] of
                Inl e \<Rightarrow> Inl e
              | Inr data_with_header \<Rightarrow> Inr \<lparr>data_table = data_with_header\<rparr>)))"

section \<open>Notions used to state the properties\<close>

text \<open>Whether a value is a Python \<open>int\<close>, and the integer it holds.\<close>

fun is_int :: "val \<Rightarrow> bool" where
  "is_int (VInt i) = True"
| "is_int (VFloat r) = False"
| "is_int (VStr s) = False"

fun int_val :: "val \<Rightarrow> int" where
  "int_val (VInt i) = i"
| "int_val (VFloat r) = 0"
| "int_val (VStr s) = 0"


text \<open>
  The sum of a list of numbers as a Python value: the integer sum when every summand is
  an integer, the float of the sum of the numeric values otherwise.
\<close>

definition spec_total :: "val list \<Rightarrow> val" where
  "spec_total vs =
     (if list_all is_int vs then VInt (sum_list (map int_val vs))
      else VFloat (sum_list (map num_val vs)))"

text \<open>
  For the loop of \<open>sum\<close>: the elements paired with a group value equal to \<open>k\<close> among the
  pairs walked so far, and the invariant that the dictionary holds their totals.
\<close>

definition group_values :: "(val \<times> val) list \<Rightarrow> val \<Rightarrow> val list" where
  "group_values ps k = map fst (filter (\<lambda>p. py_eq (snd p) k) ps)"

definition sum_inv :: "val pydict \<Rightarrow> (val \<times> val) list \<Rightarrow> bool" where
  "sum_inv d ps =
     (\<forall>k. dict_get d k =
        (if group_values ps k = [] then None else Some (spec_total (group_values ps k))))"

section \<open>Equality of values and dictionary lookup\<close>

lemma py_eq_refl: "py_eq k k"
  by (cases k) simp_all

lemma py_eq_sym: "py_eq a b \<Longrightarrow> py_eq b a"
  by (cases a; cases b) auto

lemma py_eq_trans: "py_eq a b \<Longrightarrow> py_eq b c \<Longrightarrow> py_eq a c"
  by (cases a; cases b; cases c) auto

lemma py_eq_left_cong: "py_eq a b \<Longrightarrow> py_eq a c = py_eq b c"
  by (blast intro: py_eq_sym py_eq_trans)

lemma py_eq_right_cong: "py_eq b c \<Longrightarrow> py_eq a b = py_eq a c"
  by (blast intro: py_eq_sym py_eq_trans)

lemma dict_get_cong: "py_eq k k' \<Longrightarrow> dict_get d k = dict_get d k'"
proof (induction d)
  case Nil
  show ?case by simp
next
  case (Cons p d)
  obtain a v where p: "p = (a, v)" by (cases p)
  from Cons show ?case
    by (simp add: p py_eq_right_cong [of k k' a])
qed

lemma dict_get_set:
  "dict_get (dict_set d k v) k' = (if py_eq k k' then Some v else dict_get d k')"
proof (induction d)
  case Nil
  show ?case by simp
next
  case (Cons p d)
  obtain a w where p: "p = (a, w)" by (cases p)
  show ?case
  proof (cases "py_eq a k")
    case True
    then show ?thesis
      by (simp add: p py_eq_left_cong [of a k k'])
  next
    case False
    then have "py_eq a k' \<Longrightarrow> \<not> py_eq k k'"
      by (blast intro: py_eq_sym py_eq_trans)
    with False Cons show ?thesis
      by (auto simp: p)
  qed
qed

lemma defaultdict_get_cong:
  "py_eq k k' \<Longrightarrow> defaultdict_get z d k = defaultdict_get z d k'"
  by (simp add: defaultdict_get_def dict_get_cong)

lemma occurs_conv_nth:
  "(\<exists>g\<in>set gs. py_eq g k) = (\<exists>i<length gs. py_eq (gs ! i) k)"
  by (metis in_set_conv_nth)

section \<open>Counting rows per group\<close>

lemma count_loop_get:
  "dict_get (count_loop result gs) k =
     (if \<exists>g\<in>set gs. py_eq g k
      then Some (defaultdict_get 0 result k + int (length (filter (\<lambda>g. py_eq g k) gs)))
      else dict_get result k)"
proof (induction gs arbitrary: result)
  case Nil
  show ?case by simp
next
  case (Cons g gs)
  show ?case
  proof (cases "py_eq g k")
    case True
    then have "defaultdict_get 0 (dict_set result g (defaultdict_get 0 result g + 1)) k
                 = defaultdict_get 0 result k + 1"
      by (simp add: defaultdict_get_def dict_get_set dict_get_cong [OF True])
    with True show ?thesis
      by (simp add: Cons.IH dict_get_set defaultdict_get_cong [OF True])
  next
    case False
    then show ?thesis
      by (simp add: Cons.IH dict_get_set defaultdict_get_def)
  qed
qed

lemma count_present:
  "data_table self G = Some gs \<Longrightarrow> count self G = Inr (count_loop [] gs)"
  by (simp add: count_def validate_col_name_def column_def)

text \<open>
  Claim C2.  When column \<open>G\<close> is present with elements \<open>gs\<close>, \<open>count\<close> returns a
  dictionary; looking up any value \<open>k\<close> that occurs in the column gives the number of
  row indices whose element equals \<open>k\<close>, and a value that does not occur in the column is
  not a key.
\<close>

theorem count_correct:
  assumes "data_table self G = Some gs"
  shows "\<exists>d. count self G = Inr d \<and>
           (\<forall>k. dict_get d k =
              (if \<exists>i<length gs. py_eq (gs ! i) k
               then Some (int (card {i. i < length gs \<and> py_eq (gs ! i) k}))
               else None))"
proof -
  have c: "count self G = Inr (count_loop [] gs)"
    using assms by (rule count_present)
  show ?thesis
    unfolding c
    by (simp add: count_loop_get occurs_conv_nth defaultdict_get_def length_filter_conv_card)
qed

theorem count_correct_witness:
  "count \<lparr>data_table = [''B'' \<mapsto> [VStr ''x'', VStr ''y'', VStr ''x'']]\<rparr> ''B''
     = Inr [(VStr ''x'', 2), (VStr ''y'', 1)]
   \<and> card {i. i < length [VStr ''x'', VStr ''y'', VStr ''x'']
              \<and> py_eq ([VStr ''x'', VStr ''y'', VStr ''x''] ! i) (VStr ''x'')} = 2"
proof -
  let ?gs = "[VStr ''x'', VStr ''y'', VStr ''x'']"
  let ?t = "\<lparr>data_table = [''B'' \<mapsto> ?gs]\<rparr>"
  have h: "data_table ?t ''B'' = Some ?gs" by simp
  have ev: "count ?t ''B'' = Inr [(VStr ''x'', 2), (VStr ''y'', 1)]"
    by (simp add: count_def validate_col_name_def column_def defaultdict_get_def)
  have occ: "\<exists>i<length ?gs. py_eq (?gs ! i) (VStr ''x'')"
    by (rule exI [of _ 0]) simp
  from count_correct [OF h] obtain d where
    d: "count ?t ''B'' = Inr d" and
    a: "\<And>k. dict_get d k =
          (if \<exists>i<length ?gs. py_eq (?gs ! i) k
           then Some (int (card {i. i < length ?gs \<and> py_eq (?gs ! i) k}))
           else None)"
    by blast
  from d ev have dv: "d = [(VStr ''x'', 2), (VStr ''y'', 1)]" by simp
  have "dict_get d (VStr ''x'') =
          Some (int (card {i. i < length ?gs \<and> py_eq (?gs ! i) (VStr ''x'')}))"
    unfolding a [of "VStr ''x''"] using occ by (rule if_P)
  moreover have "dict_get d (VStr ''x'') = Some 2"
    unfolding dv by simp
  ultimately have "card {i. i < length ?gs \<and> py_eq (?gs ! i) (VStr ''x'')} = 2"
    by simp
  with ev show ?thesis by blast
qed

section \<open>Summing a column per group\<close>

lemma is_number_spec_total: "is_number (spec_total vs)"
  by (simp add: spec_total_def)

lemma num_val_int: "is_int v \<Longrightarrow> num_val v = of_int (int_val v)"
  by (cases v) simp_all

lemma num_val_sum_int:
  "list_all is_int vs \<Longrightarrow> sum_list (map num_val vs) = of_int (sum_list (map int_val vs))"
  by (induction vs) (simp_all add: num_val_int)

lemma py_add_spec_total:
  "is_number v \<Longrightarrow> py_add (spec_total vs) v = Inr (spec_total (vs @ [v]))"
  by (cases v) (auto simp: spec_total_def num_val_sum_int)

lemma group_values_cong: "py_eq k k' \<Longrightarrow> group_values ps k = group_values ps k'"
  by (simp add: group_values_def py_eq_right_cong [of k k'])

lemma group_values_snoc:
  "group_values (ps @ [(v, g)]) k =
     (if py_eq g k then group_values ps k @ [v] else group_values ps k)"
  by (simp add: group_values_def)

lemma sum_inv_empty: "sum_inv [] []"
  by (simp add: sum_inv_def group_values_def)

lemma sum_inv_default:
  "sum_inv d ps \<Longrightarrow> defaultdict_get (VInt 0) d g = spec_total (group_values ps g)"
  by (simp add: sum_inv_def defaultdict_get_def spec_total_def)

lemma sum_inv_step:
  assumes "sum_inv d ps"
  shows "sum_inv (dict_set d g (spec_total (group_values ps g @ [v]))) (ps @ [(v, g)])"
  unfolding sum_inv_def
proof
  fix k
  show "dict_get (dict_set d g (spec_total (group_values ps g @ [v]))) k =
          (if group_values (ps @ [(v, g)]) k = [] then None
           else Some (spec_total (group_values (ps @ [(v, g)]) k)))"
  proof (cases "py_eq g k")
    case True
    then show ?thesis
      by (simp add: dict_get_set group_values_snoc group_values_cong [of g k])
  next
    case False
    with assms show ?thesis
      by (simp add: dict_get_set group_values_snoc sum_inv_def)
  qed
qed

lemma sum_loop_step:
  assumes "sum_inv d ps" "is_number v"
  shows "sum_loop d ((v, g) # rest) =
           sum_loop (dict_set d g (spec_total (group_values ps g @ [v]))) rest"
  using assms by (simp add: sum_inv_default py_add_spec_total)

lemma sum_loop_numeric:
  "sum_inv d ps \<Longrightarrow> list_all is_number (map fst qs) \<Longrightarrow>
     \<exists>d'. sum_loop d qs = Inr d' \<and> sum_inv d' (ps @ qs)"
proof (induction qs arbitrary: d ps)
  case Nil
  then show ?case by simp
next
  case (Cons q qs)
  obtain v g where q: "q = (v, g)" by (cases q)
  from Cons.prems have v: "is_number v" and rest: "list_all is_number (map fst qs)"
    by (simp_all add: q)
  from Cons.IH [OF sum_inv_step [OF Cons.prems(1)] rest, of g v]
  obtain d' where
    r: "sum_loop (dict_set d g (spec_total (group_values ps g @ [v]))) qs = Inr d'" and
    i: "sum_inv d' ((ps @ [(v, g)]) @ qs)"
    by blast
  from i have "sum_inv d' (ps @ q # qs)"
    by (simp add: q)
  with r show ?case
    unfolding q sum_loop_step [OF Cons.prems(1) v] by blast
qed

lemma sum_loop_offending:
  "sum_inv d ps \<Longrightarrow> find (\<lambda>v. \<not> is_number v) (map fst qs) = Some x \<Longrightarrow>
     sum_loop d qs = Inl (NonNumericValue x)"
proof (induction qs arbitrary: d ps)
  case Nil
  then show ?case by simp
next
  case (Cons q qs)
  obtain v g where q: "q = (v, g)" by (cases q)
  show ?case
  proof (cases "is_number v")
    case True
    with Cons.prems(2) have f: "find (\<lambda>v. \<not> is_number v) (map fst qs) = Some x"
      by (simp add: q)
    from Cons.IH [OF sum_inv_step [OF Cons.prems(1)] f, of g v]
    show ?thesis
      by (simp only: q sum_loop_step [OF Cons.prems(1) True])
  next
    case False
    with Cons.prems(2) show ?thesis
      by (simp add: q)
  qed
qed


lemma find_offending:
  "\<not> list_all P xs \<Longrightarrow> \<exists>x. find (\<lambda>v. \<not> P v) xs = Some x"
  by (induction xs) auto

lemma sum_loop_success:
  assumes "sum_inv d ps" "sum_loop d qs = Inr d'"
  shows "list_all is_number (map fst qs) \<and> sum_inv d' (ps @ qs)"
proof (cases "list_all is_number (map fst qs)")
  case True
  from sum_loop_numeric [OF assms(1) True] assms(2) True show ?thesis
    by auto
next
  case False
  then obtain x where "find (\<lambda>v. \<not> is_number v) (map fst qs) = Some x"
    using find_offending by blast
  from sum_loop_offending [OF assms(1) this] assms(2) show ?thesis
    by simp
qed

lemma sum_by_present:
  "data_table self col = Some vs \<Longrightarrow> data_table self grp = Some gs \<Longrightarrow>
     sum_by self col grp = sum_loop [] (zip vs gs)"
  by (simp add: sum_by_def validate_col_name_def column_def)




lemma group_values_occurs:
  "group_values (zip vs gs) k \<noteq> [] \<Longrightarrow> \<exists>g\<in>set gs. py_eq g k"
  by (auto simp: group_values_def filter_empty_conv dest: set_zip_rightD)



section \<open>Averaging a column per group\<close>

lemma dict_get_None_keys:
  "(dict_get d k = None) = (\<forall>k'\<in>set (dict_keys d). \<not> py_eq k' k)"
proof (induction d)
  case Nil
  show ?case by (simp add: dict_keys_def)
next
  case (Cons p d)
  obtain a v where p: "p = (a, v)" by (cases p)
  from Cons show ?case
    by (simp add: p dict_keys_def)
qed

lemma avg_comprehension_ok:
  assumes "\<forall>k\<in>set ks. is_number (defaultdict_get (VInt 0) sm k) \<and> defaultdict_get 0 cnt k \<noteq> 0"
  shows "\<exists>a. avg_comprehension acc sm cnt ks = Inr a \<and>
           (\<forall>k. dict_get a k =
              (if \<exists>k'\<in>set ks. py_eq k' k
               then Some (VFloat (num_val (defaultdict_get (VInt 0) sm k)
                                   / of_int (defaultdict_get 0 cnt k)))
               else dict_get acc k))"
  using assms
proof (induction ks arbitrary: acc)
  case Nil
  show ?case by simp
next
  case (Cons k0 ks)
  let ?q = "VFloat (num_val (defaultdict_get (VInt 0) sm k0) / of_int (defaultdict_get 0 cnt k0))"
  from Cons.prems have d: "py_truediv (defaultdict_get (VInt 0) sm k0)
                             (VInt (defaultdict_get 0 cnt k0)) = Inr ?q"
    by (simp add: py_truediv_def)
  from Cons.prems have "\<forall>k\<in>set ks. is_number (defaultdict_get (VInt 0) sm k)
                           \<and> defaultdict_get 0 cnt k \<noteq> 0"
    by simp
  from Cons.IH [OF this, of "dict_set acc k0 ?q"]
  obtain a where
    r: "avg_comprehension (dict_set acc k0 ?q) sm cnt ks = Inr a" and
    g: "\<And>k. dict_get a k =
          (if \<exists>k'\<in>set ks. py_eq k' k
           then Some (VFloat (num_val (defaultdict_get (VInt 0) sm k)
                               / of_int (defaultdict_get 0 cnt k)))
           else dict_get (dict_set acc k0 ?q) k)"
    by blast
  have "dict_get a k =
          (if \<exists>k'\<in>set (k0 # ks). py_eq k' k
           then Some (VFloat (num_val (defaultdict_get (VInt 0) sm k)
                               / of_int (defaultdict_get 0 cnt k)))
           else dict_get acc k)" for k
  proof (cases "py_eq k0 k")
    case True
    then show ?thesis
      by (simp add: g dict_get_set defaultdict_get_cong [OF True])
  next
    case False
    then show ?thesis
      by (simp add: g dict_get_set)
  qed
  with r d show ?case
    by simp
qed

lemma count_positive:
  assumes "\<exists>g\<in>set gs. py_eq g k"
  shows "\<exists>c. dict_get (count_loop [] gs) k = Some c \<and> 0 < c"
proof -
  from assms have "filter (\<lambda>g. py_eq g k) gs \<noteq> []"
    by (simp add: filter_empty_conv)
  then have "0 < length (filter (\<lambda>g. py_eq g k) gs)"
    by simp
  with assms show ?thesis
    by (simp add: count_loop_get defaultdict_get_def)
qed

lemma avg_present:
  assumes "data_table self col = Some vs" and "data_table self grp = Some gs"
    and "sum_by self col grp = Inr sm"
  shows "avg self col grp = avg_comprehension [] sm (count_loop [] gs) (dict_keys sm)"
  using assms
  by (simp add: avg_def validate_col_name_def count_present)

lemma sum_keys_counted:
  assumes "data_table self col = Some vs" and "data_table self grp = Some gs"
    and "sum_by self col grp = Inr sm" and "dict_get sm k = Some s"
  shows "is_number s \<and> (\<exists>c. dict_get (count_loop [] gs) k = Some c \<and> 0 < c)"
proof -
  from assms(3) have "sum_loop [] (zip vs gs) = Inr sm"
    by (simp add: sum_by_present [OF assms(1,2)])
  from sum_loop_success [OF sum_inv_empty this] have i: "sum_inv sm (zip vs gs)"
    by simp
  from i assms(4) have ne: "group_values (zip vs gs) k \<noteq> []"
    and s: "s = spec_total (group_values (zip vs gs) k)"
    by (auto simp: sum_inv_def split: if_splits)
  from s have "is_number s" by (simp add: is_number_spec_total)
  with count_positive [OF group_values_occurs [OF ne]] show ?thesis
    by simp
qed

lemma avg_result:
  assumes "data_table self col = Some vs" and "data_table self grp = Some gs"
    and "sum_by self col grp = Inr sm"
  shows "\<exists>a. avg self col grp = Inr a \<and>
           (\<forall>k. dict_get a k =
              (case dict_get sm k of
                 None \<Rightarrow> None
               | Some s \<Rightarrow>
                  Some (VFloat (num_val s / of_int (defaultdict_get 0 (count_loop [] gs) k)))))"
proof -
  let ?cnt = "count_loop [] gs"
  have pre: "\<forall>k\<in>set (dict_keys sm).
               is_number (defaultdict_get (VInt 0) sm k) \<and> defaultdict_get 0 ?cnt k \<noteq> 0"
  proof
    fix k assume "k \<in> set (dict_keys sm)"
    then have "dict_get sm k \<noteq> None"
      using py_eq_refl by (auto simp: dict_get_None_keys)
    then obtain s where s: "dict_get sm k = Some s" by blast
    from sum_keys_counted [OF assms s] s
    show "is_number (defaultdict_get (VInt 0) sm k) \<and> defaultdict_get 0 ?cnt k \<noteq> 0"
      by (auto simp: defaultdict_get_def)
  qed
  from avg_comprehension_ok [OF pre, of "[]"]
  obtain a where
    r: "avg_comprehension [] sm ?cnt (dict_keys sm) = Inr a" and
    g: "\<And>k. dict_get a k =
          (if \<exists>k'\<in>set (dict_keys sm). py_eq k' k
           then Some (VFloat (num_val (defaultdict_get (VInt 0) sm k)
                               / of_int (defaultdict_get 0 ?cnt k)))
           else dict_get [] k)"
    by blast
  have "dict_get a k =
          (case dict_get sm k of
             None \<Rightarrow> None
           | Some s \<Rightarrow> Some (VFloat (num_val s / of_int (defaultdict_get 0 ?cnt k))))" for k
  proof (cases "dict_get sm k")
    case None
    then show ?thesis
      by (simp add: g dict_get_None_keys [symmetric])
  next
    case (Some s)
    then have "\<exists>k'\<in>set (dict_keys sm). py_eq k' k"
      using dict_get_None_keys [of sm k] by auto
    with Some show ?thesis
      by (simp add: g defaultdict_get_def)
  qed
  with r show ?thesis
    by (simp add: avg_present [OF assms])
qed



text \<open>
  Claim C4.  When both columns are present and \<open>sum\<close> succeeds, every key of its result
  is a key of the result of \<open>count\<close> with a strictly positive count, and \<open>avg\<close> does not
  fail with a division by zero.
\<close>

theorem avg_no_division_by_zero:
  assumes "data_table self col = Some vs" and "data_table self grp = Some gs"
    and "sum_by self col grp = Inr sm"
  shows "\<exists>cnt. count self grp = Inr cnt \<and>
           (\<forall>k. dict_get sm k \<noteq> None \<longrightarrow> (\<exists>c. dict_get cnt k = Some c \<and> 0 < c)) \<and>
           avg self col grp \<noteq> Inl ZeroDivisionError"
proof -
  have c: "count self grp = Inr (count_loop [] gs)"
    using assms(2) by (rule count_present)
  have pos: "\<exists>c. dict_get (count_loop [] gs) k = Some c \<and> 0 < c"
    if "dict_get sm k \<noteq> None" for k
  proof -
    from that obtain s where "dict_get sm k = Some s" by blast
    from sum_keys_counted [OF assms this] show ?thesis by simp
  qed
  from avg_result [OF assms] have "avg self col grp \<noteq> Inl ZeroDivisionError"
    by auto
  with c pos show ?thesis
    by blast
qed

theorem avg_no_division_by_zero_witness:
  "count \<lparr>data_table = [''A'' \<mapsto> [VInt 1, VInt 2, VInt 3],
                        ''B'' \<mapsto> [VStr ''x'', VStr ''y'', VStr ''x'']]\<rparr> ''B''
     = Inr [(VStr ''x'', 2), (VStr ''y'', 1)]
   \<and> avg \<lparr>data_table = [''A'' \<mapsto> [VInt 1, VInt 2, VInt 3],
                        ''B'' \<mapsto> [VStr ''x'', VStr ''y'', VStr ''x'']]\<rparr> ''A'' ''B''
     \<noteq> Inl ZeroDivisionError"
proof -
  let ?vs = "[VInt 1, VInt 2, VInt 3]"
  let ?gs = "[VStr ''x'', VStr ''y'', VStr ''x'']"
  let ?t = "\<lparr>data_table = [''A'' \<mapsto> ?vs, ''B'' \<mapsto> ?gs]\<rparr>"
  have h1: "data_table ?t ''A'' = Some ?vs" by simp
  have h2: "data_table ?t ''B'' = Some ?gs" by simp
  have h3: "sum_by ?t ''A'' ''B'' = Inr [(VStr ''x'', VInt 4), (VStr ''y'', VInt 2)]"
    by (simp add: sum_by_def validate_col_name_def column_def defaultdict_get_def)
  have ev: "count ?t ''B'' = Inr [(VStr ''x'', 2), (VStr ''y'', 1)]"
    by (simp add: count_def validate_col_name_def column_def defaultdict_get_def)
  from avg_no_division_by_zero [OF h1 h2 h3]
  have "avg ?t ''A'' ''B'' \<noteq> Inl ZeroDivisionError" by blast
  with ev show ?thesis by blast
qed

section \<open>Non-numeric elements\<close>








section \<open>Absent columns\<close>

text \<open>
  Claim C6.  For a column name \<open>C\<close> that is absent from the table, each of \<open>get\<close>,
  \<open>count\<close>, \<open>sum\<close> and \<open>avg\<close> with \<open>C\<close> in either position, and \<open>map\<close> fails with
  \<open>NoSuchColumn\<close>, whatever the other column holds and whatever the transform is, and
  \<open>map\<close> leaves the table as it was.  When the other column named in \<open>sum\<close> or \<open>avg\<close>
  is absent as well and comes first, the error names that one.
\<close>

theorem absent_column_fails:
  assumes "data_table self C = None"
  shows "getitem self C = Inl (NoSuchColumn C)
       \<and> count self C = Inl (NoSuchColumn C)
       \<and> sum_by self C X = Inl (NoSuchColumn C)
       \<and> sum_by self X C = Inl (NoSuchColumn (if data_table self X = None then X else C))
       \<and> avg self C X = Inl (NoSuchColumn C)
       \<and> avg self X C = Inl (NoSuchColumn (if data_table self X = None then X else C))
       \<and> map_col self C func = (Some (NoSuchColumn C), self)"
  using assms
  by (simp add: getitem_def count_def sum_by_def avg_def map_col_def validate_col_name_def)

theorem absent_column_fails_witness:
  "getitem \<lparr>data_table = [''A'' \<mapsto> [VInt 1, VInt 2]]\<rparr> ''B'' = Inl (NoSuchColumn ''B'')
   \<and> count \<lparr>data_table = [''A'' \<mapsto> [VInt 1, VInt 2]]\<rparr> ''B'' = Inl (NoSuchColumn ''B'')
   \<and> sum_by \<lparr>data_table = [''A'' \<mapsto> [VInt 1, VInt 2]]\<rparr> ''A'' ''B'' = Inl (NoSuchColumn ''B'')
   \<and> avg \<lparr>data_table = [''A'' \<mapsto> [VInt 1, VInt 2]]\<rparr> ''B'' ''A'' = Inl (NoSuchColumn ''B'')
   \<and> map_col \<lparr>data_table = [''A'' \<mapsto> [VInt 1, VInt 2]]\<rparr> ''B'' (\<lambda>x. Inr x)
       = (Some (NoSuchColumn ''B''), \<lparr>data_table = [''A'' \<mapsto> [VInt 1, VInt 2]]\<rparr>)"
proof -
  let ?t = "\<lparr>data_table = [''A'' \<mapsto> [VInt 1, VInt 2]]\<rparr>"
  have h: "data_table ?t ''B'' = None" by simp
  have p: "data_table ?t ''A'' \<noteq> None" by simp
  from absent_column_fails [OF h, of "''A''" "\<lambda>x. Inr x"] p show ?thesis
    by simp
qed

section \<open>A transform that fails\<close>

lemma map_comprehension_fails:
  "find (\<lambda>x. isl (func x)) xs = Some x \<Longrightarrow> map_comprehension func xs = Inl (projl (func x))"
proof (induction xs)
  case Nil
  then show ?case by simp
next
  case (Cons y ys)
  show ?case
  proof (cases "func y")
    case (Inl e)
    with Cons.prems show ?thesis by simp
  next
    case (Inr z)
    with Cons show ?thesis by simp
  qed
qed

lemma map_col_error_unchanged:
  "map_col self col func = (Some e, self') \<Longrightarrow> self' = self"
  by (auto simp: map_col_def split: sum.splits)

text \<open>
  The claim that some failed \<open>map\<close> leaves the column different from its value before
  the call is false: no table, column and transform do.
\<close>

theorem map_not_partial_counterexample:
  "\<not> (\<exists>self col func e self'.
        data_table self col \<noteq> None \<and> map_col self col func = (Some e, self')
        \<and> data_table self' col \<noteq> data_table self col)"
  using map_col_error_unchanged by blast

text \<open>
  Claim C7, amended.  When the column is present and the transform fails on some
  element, the failure of the first such element propagates to the caller and the table
  is exactly as it was before the call: the column is rebound only after the whole new
  list has been built.
\<close>

theorem map_failure_atomic:
  assumes "data_table self col = Some xs"
    and "find (\<lambda>x. isl (func x)) xs = Some x"
  shows "map_col self col func = (Some (projl (func x)), self)"
  using assms
  by (simp add: map_col_def validate_col_name_def column_def map_comprehension_fails)

theorem map_failure_atomic_witness:
  "map_col \<lparr>data_table = [''A'' \<mapsto> [VInt 1, VStr ''b'', VInt 3]]\<rparr> ''A''
      (\<lambda>x. if is_number x then Inr (VInt (int_val x * int_val x)) else Inl (TransformError ''bad''))
     = (Some (TransformError ''bad''), \<lparr>data_table = [''A'' \<mapsto> [VInt 1, VStr ''b'', VInt 3]]\<rparr>)"
proof -
  let ?xs = "[VInt 1, VStr ''b'', VInt 3]"
  let ?t = "\<lparr>data_table = [''A'' \<mapsto> ?xs]\<rparr>"
  let ?f = "\<lambda>x. if is_number x then Inr (VInt (int_val x * int_val x))
                 else Inl (TransformError ''bad'')"
  have h1: "data_table ?t ''A'' = Some ?xs" by simp
  have h2: "find (\<lambda>x. isl (?f x)) ?xs = Some (VStr ''b'')" by simp
  from map_failure_atomic [OF h1 h2] show ?thesis by simp
qed

section \<open>Loading a CSV file\<close>

lemma append_row_ok:
  "n + length row \<le> length data \<Longrightarrow>
     \<exists>data'. append_row data (enumerate n row) = Inr data' \<and> length data' = length data \<and>
       (\<forall>j<length data. data' ! j =
          (if n \<le> j \<and> j < n + length row then data ! j @ [VStr (row ! (j - n))]
           else data ! j))"
proof (induction row arbitrary: data n)
  case Nil
  show ?case by simp
next
  case (Cons x row)
  let ?d = "data[n := data ! n @ [VStr x]]"
  from Cons.prems have n: "n < length data" and le: "Suc n + length row \<le> length ?d"
    by simp_all
  from Cons.IH [OF le] obtain data' where
    r: "append_row ?d (enumerate (Suc n) row) = Inr data'" and
    l: "length data' = length data" and
    g: "\<And>j. j < length data \<Longrightarrow> data' ! j =
          (if Suc n \<le> j \<and> j < Suc n + length row then ?d ! j @ [VStr (row ! (j - Suc n))]
           else ?d ! j)"
    by auto
  have "data' ! j =
          (if n \<le> j \<and> j < n + length (x # row) then data ! j @ [VStr ((x # row) ! (j - n))]
           else data ! j)" if j: "j < length data" for j
  proof (cases "j = n")
    case True
    with n show ?thesis by (simp add: g)
  next
    case False
    show ?thesis
    proof (cases "n < j")
      case True
      then have "(x # row) ! (j - n) = row ! (j - Suc n)"
        by (simp add: nth_Cons')
      with True j False show ?thesis
        by (simp add: g)
    next
      case False
      with \<open>j \<noteq> n\<close> j show ?thesis
        by (simp add: g)
    qed
  qed
  with r l n show ?case
    by simp
qed

lemma read_rows_ok:
  "length data = length hs \<Longrightarrow> \<forall>r\<in>set rows. length r = length hs \<Longrightarrow>
     \<exists>data'. read_rows hs data rows = Inr data' \<and> length data' = length hs \<and>
       (\<forall>j<length hs. data' ! j = data ! j @ map (\<lambda>r. VStr (r ! j)) rows)"
proof (induction rows arbitrary: data)
  case Nil
  then show ?case by simp
next
  case (Cons row rows)
  from Cons.prems have lr: "length row = length hs" and
    rest: "\<forall>r\<in>set rows. length r = length hs"
    by simp_all
  from Cons.prems(1) lr have "0 + length row \<le> length data" by simp
  from append_row_ok [OF this] obtain d1 where
    a: "append_row data (enumerate 0 row) = Inr d1" and
    l1: "length d1 = length data" and
    g1: "\<And>j. j < length data \<Longrightarrow> d1 ! j =
           (if 0 \<le> j \<and> j < 0 + length row then data ! j @ [VStr (row ! (j - 0))]
            else data ! j)"
    by blast
  from l1 Cons.prems(1) have "length d1 = length hs" by simp
  from Cons.IH [OF this rest] obtain d2 where
    r: "read_rows hs d1 rows = Inr d2" and
    l2: "length d2 = length hs" and
    g2: "\<And>j. j < length hs \<Longrightarrow> d2 ! j = d1 ! j @ map (\<lambda>r. VStr (r ! j)) rows"
    by blast
  have "d2 ! j = data ! j @ map (\<lambda>r. VStr (r ! j)) (row # rows)" if "j < length hs" for j
    using that Cons.prems(1) lr by (simp add: g2 g1)
  with a r l2 lr show ?case
    by simp
qed

lemma read_rows_bad:
  "length data = length hs \<Longrightarrow> find (\<lambda>r. length r \<noteq> length hs) rows = Some bad \<Longrightarrow>
     read_rows hs data rows = Inl (MalformedRow (length hs) (length bad) bad)"
proof (induction rows arbitrary: data)
  case Nil
  then show ?case by simp
next
  case (Cons row rows)
  show ?case
  proof (cases "length row = length hs")
    case True
    with Cons.prems(1) have "0 + length row \<le> length data" by simp
    from append_row_ok [OF this] obtain d1 where
      a: "append_row data (enumerate 0 row) = Inr d1" and l1: "length d1 = length data"
      by blast
    from Cons.prems(2) True have f: "find (\<lambda>r. length r \<noteq> length hs) rows = Some bad"
      by simp
    from l1 Cons.prems(1) have "length d1 = length hs" by simp
    from Cons.IH [OF this f] a True show ?thesis
      by simp
  next
    case False
    with Cons.prems(2) show ?thesis by simp
  qed
qed

lemma with_header_ok:
  "\<forall>i\<in>set idxs. i < length hs \<and> i < length data \<Longrightarrow>
     \<exists>m. with_header acc hs data idxs = Inr m \<and>
       (\<forall>name. m name =
          (if \<exists>i\<in>set idxs. hs ! i = name
           then Some (data ! last (filter (\<lambda>i. hs ! i = name) idxs))
           else acc name))"
proof (induction idxs arbitrary: acc)
  case Nil
  show ?case by simp
next
  case (Cons i idxs)
  from Cons.prems have i: "i < length hs \<and> i < length data" and
    rest: "\<forall>i\<in>set idxs. i < length hs \<and> i < length data"
    by simp_all
  from Cons.IH [OF rest, of "acc(hs ! i \<mapsto> data ! i)"] obtain m where
    r: "with_header (acc(hs ! i \<mapsto> data ! i)) hs data idxs = Inr m" and
    g: "\<And>name. m name =
          (if \<exists>i\<in>set idxs. hs ! i = name
           then Some (data ! last (filter (\<lambda>i. hs ! i = name) idxs))
           else (acc(hs ! i \<mapsto> data ! i)) name)"
    by blast
  have "m name =
          (if \<exists>j\<in>set (i # idxs). hs ! j = name
           then Some (data ! last (filter (\<lambda>j. hs ! j = name) (i # idxs)))
           else acc name)" for name
  proof (cases "\<exists>j\<in>set idxs. hs ! j = name")
    case True
    then have "filter (\<lambda>j. hs ! j = name) idxs \<noteq> []"
      by (simp add: filter_empty_conv)
    with True show ?thesis
      by (simp add: g)
  next
    case False
    then have "filter (\<lambda>j. hs ! j = name) idxs = []"
      by (simp add: filter_empty_conv)
    with False show ?thesis
      by (simp add: g)
  qed
  with r i show ?case
    by simp
qed

lemma last_occurrence:
  assumes "j < n" and "P j" and "\<forall>j'. j < j' \<and> j' < n \<longrightarrow> \<not> P j'"
  shows "last (filter P [0..<n]) = j"
proof -
  from assms(1) have "[0..<n] = [0..<j] @ j # [Suc j..<n]"
    by (metis le0 less_imp_le_nat upt_add_eq_append upt_conv_Cons le_add_diff_inverse)
  moreover from assms(3) have "filter P [Suc j..<n] = []"
    by (auto simp: filter_empty_conv)
  ultimately show ?thesis
    using assms(2) by simp
qed

lemma read_csv_columns:
  assumes "\<forall>r\<in>set rows. length r = length hs"
  shows "\<exists>t. read_csv (hs # rows) = Inr t \<and>
           (\<forall>name. data_table t name =
              (if \<exists>i<length hs. hs ! i = name
               then Some (map (\<lambda>r. VStr (r ! last (filter (\<lambda>i. hs ! i = name) [0..<length hs])))
                            rows)
               else None))"
proof -
  have "length (map (\<lambda>col_name. []) hs) = length hs" by simp
  from read_rows_ok [OF this assms] obtain data where
    r: "read_rows hs (map (\<lambda>col_name. []) hs) rows = Inr data" and
    l: "length data = length hs" and
    g: "\<And>j. j < length hs \<Longrightarrow> data ! j = map (\<lambda>r. VStr (r ! j)) rows"
    by auto
  from l have "\<forall>i\<in>set [0..<length hs]. i < length hs \<and> i < length data" by simp
  from with_header_ok [OF this, of Map.empty] obtain m where
    w: "with_header Map.empty hs data [0..<length hs] = Inr m" and
    mg: "\<And>name. m name =
          (if \<exists>i\<in>set [0..<length hs]. hs ! i = name
           then Some (data ! last (filter (\<lambda>i. hs ! i = name) [0..<length hs]))
           else None)"
    by auto
  have "m name =
          (if \<exists>i<length hs. hs ! i = name
           then Some (map (\<lambda>r. VStr (r ! last (filter (\<lambda>i. hs ! i = name) [0..<length hs])))
                        rows)
           else None)" for name
  proof (cases "\<exists>i<length hs. hs ! i = name")
    case True
    then have ne: "filter (\<lambda>i. hs ! i = name) [0..<length hs] \<noteq> []"
      by (auto simp: filter_empty_conv)
    from last_in_set [OF ne] have "last (filter (\<lambda>i. hs ! i = name) [0..<length hs]) < length hs"
      by simp
    from g [OF this] True show ?thesis
      by (auto simp: mg)
  next
    case False
    then show ?thesis
      by (auto simp: mg)
  qed
  with r w show ?thesis
    by (simp add: read_csv_def)
qed


lemma dom_from_lookup:
  assumes "\<And>name. m name = (if \<exists>i<length hs. hs ! i = name then Some (f name) else None)"
  shows "dom m = set hs"
  by (auto simp: assms dom_def in_set_conv_nth split: if_splits)

text \<open>
  Claim C8.  For rows whose first row is a header of \<open>N\<close> distinct names and whose other
  rows have exactly \<open>N\<close> fields each, \<open>read_csv\<close> returns a table whose columns are the
  header names and in which the \<open>j\<close>-th name is bound to the \<open>j\<close>-th field of every data
  row, in row order, each kept as text.
\<close>

theorem read_csv_well_formed:
  assumes "distinct hs" and "\<forall>r\<in>set rows. length r = length hs"
  shows "\<exists>t. read_csv (hs # rows) = Inr t \<and> dom (data_table t) = set hs \<and>
           (\<forall>j<length hs. getitem t (hs ! j) = Inr (map (\<lambda>r. VStr (r ! j)) rows))"
proof -
  from read_csv_columns [OF assms(2)] obtain t where
    r: "read_csv (hs # rows) = Inr t" and
    g: "\<And>name. data_table t name =
          (if \<exists>i<length hs. hs ! i = name
           then Some (map (\<lambda>r. VStr (r ! last (filter (\<lambda>i. hs ! i = name) [0..<length hs])))
                        rows)
           else None)"
    by blast
  have d: "dom (data_table t) = set hs"
    using g by (rule dom_from_lookup)
  have "getitem t (hs ! j) = Inr (map (\<lambda>r. VStr (r ! j)) rows)" if j: "j < length hs" for j
  proof -
    from assms(1) j have "\<forall>j'. j < j' \<and> j' < length hs \<longrightarrow> hs ! j' \<noteq> hs ! j"
      by (auto simp: nth_eq_iff_index_eq)
    with j have "last (filter (\<lambda>i. hs ! i = hs ! j) [0..<length hs]) = j"
      by (intro last_occurrence) auto
    moreover from j have "\<exists>i<length hs. hs ! i = hs ! j" by blast
    ultimately show ?thesis
      by (simp add: getitem_def validate_col_name_def column_def g)
  qed
  with r d show ?thesis
    by blast
qed

theorem read_csv_well_formed_witness:
  "\<exists>t. read_csv [[''A'', ''B''], [''1'', ''x''], [''2'', ''y'']] = Inr t
       \<and> getitem t ''A'' = Inr [VStr ''1'', VStr ''2'']
       \<and> getitem t ''B'' = Inr [VStr ''x'', VStr ''y'']"
proof -
  let ?hs = "[''A'', ''B'']"
  let ?rows = "[[''1'', ''x''], [''2'', ''y'']]"
  have h1: "distinct ?hs" by simp
  have h2: "\<forall>r\<in>set ?rows. length r = length ?hs" by simp
  from read_csv_well_formed [OF h1 h2] obtain t where
    r: "read_csv (?hs # ?rows) = Inr t" and
    g: "\<And>j. j < length ?hs \<Longrightarrow> getitem t (?hs ! j) = Inr (map (\<lambda>r. VStr (r ! j)) ?rows)"
    by blast
  from g [of 0] have a: "getitem t ''A'' = Inr [VStr ''1'', VStr ''2'']" by simp
  from g [of 1] have b: "getitem t ''B'' = Inr [VStr ''x'', VStr ''y'']" by simp
  from r a b show ?thesis by blast
qed

text \<open>
  Claim C9.  When some data row has a field count different from the header's,
  \<open>read_csv\<close> fails with \<open>MalformedRow\<close> for the first such row and returns no table.
\<close>

theorem read_csv_malformed_row:
  assumes "\<exists>r\<in>set rows. length r \<noteq> length hs"
  shows "\<exists>bad. find (\<lambda>r. length r \<noteq> length hs) rows = Some bad \<and>
           read_csv (hs # rows) = Inl (MalformedRow (length hs) (length bad) bad)"
proof -
  from assms obtain bad where f: "find (\<lambda>r. length r \<noteq> length hs) rows = Some bad"
    by (cases "find (\<lambda>r. length r \<noteq> length hs) rows") (auto simp: find_None_iff)
  have "length (map (\<lambda>col_name. []) hs) = length hs" by simp
  from read_rows_bad [OF this f] f show ?thesis
    by (simp add: read_csv_def)
qed

theorem read_csv_malformed_row_witness:
  "read_csv [[''A'', ''B'', ''C''], [''1'', ''x'', ''u''], [''2'', ''y'']]
     = Inl (MalformedRow 3 2 [''2'', ''y''])"
proof -
  let ?hs = "[''A'', ''B'', ''C'']"
  let ?rows = "[[''1'', ''x'', ''u''], [''2'', ''y'']]"
  have h: "\<exists>r\<in>set ?rows. length r \<noteq> length ?hs" by simp
  from read_csv_malformed_row [OF h] show ?thesis by simp
qed

text \<open>
  Claim C10.  When every data row has as many fields as the header, \<open>read_csv\<close>
  succeeds also if a name occurs several times in the header: the table has one column
  per distinct name, and a name is bound to the column of its last occurrence, so the
  columns of its earlier occurrences are not in the table.
\<close>

theorem read_csv_duplicate_header:
  assumes "\<forall>r\<in>set rows. length r = length hs"
  shows "\<exists>t. read_csv (hs # rows) = Inr t \<and> dom (data_table t) = set hs \<and>
           (\<forall>j<length hs. (\<forall>j'. j < j' \<and> j' < length hs \<longrightarrow> hs ! j' \<noteq> hs ! j) \<longrightarrow>
              getitem t (hs ! j) = Inr (map (\<lambda>r. VStr (r ! j)) rows))"
proof -
  from read_csv_columns [OF assms] obtain t where
    r: "read_csv (hs # rows) = Inr t" and
    g: "\<And>name. data_table t name =
          (if \<exists>i<length hs. hs ! i = name
           then Some (map (\<lambda>r. VStr (r ! last (filter (\<lambda>i. hs ! i = name) [0..<length hs])))
                        rows)
           else None)"
    by blast
  have d: "dom (data_table t) = set hs"
    using g by (rule dom_from_lookup)
  have "getitem t (hs ! j) = Inr (map (\<lambda>r. VStr (r ! j)) rows)"
    if j: "j < length hs" and l: "\<forall>j'. j < j' \<and> j' < length hs \<longrightarrow> hs ! j' \<noteq> hs ! j" for j
  proof -
    from j l have "last (filter (\<lambda>i. hs ! i = hs ! j) [0..<length hs]) = j"
      by (intro last_occurrence) auto
    moreover from j have "\<exists>i<length hs. hs ! i = hs ! j" by blast
    ultimately show ?thesis
      by (simp add: getitem_def validate_col_name_def column_def g)
  qed
  with r d show ?thesis
    by blast
qed

theorem read_csv_duplicate_header_witness:
  "\<exists>t. read_csv [[''A'', ''B'', ''A''], [''1'', ''x'', ''3''], [''2'', ''y'', ''4'']] = Inr t
       \<and> dom (data_table t) = {''A'', ''B''}
       \<and> getitem t ''A'' = Inr [VStr ''3'', VStr ''4'']"
proof -
  let ?hs = "[''A'', ''B'', ''A'']"
  let ?rows = "[[''1'', ''x'', ''3''], [''2'', ''y'', ''4'']]"
  have h: "\<forall>r\<in>set ?rows. length r = length ?hs" by simp
  from read_csv_duplicate_header [OF h] obtain t where
    r: "read_csv (?hs # ?rows) = Inr t" and
    d: "dom (data_table t) = set ?hs" and
    g: "\<And>j. j < length ?hs \<Longrightarrow>
          (\<forall>j'. j < j' \<and> j' < length ?hs \<longrightarrow> ?hs ! j' \<noteq> ?hs ! j) \<Longrightarrow>
          getitem t (?hs ! j) = Inr (map (\<lambda>r. VStr (r ! j)) ?rows)"
    by blast
  from g [of 2] have a: "getitem t ''A'' = Inr [VStr ''3'', VStr ''4'']" by simp
  from d have "dom (data_table t) = {''A'', ''B''}" by auto
  with r a show ?thesis by blast
qed

end
